theory Spec2Isabelle
  imports Complex_Main "HOL-Library.Word" "HOL-Library.Sublist"
begin

section \<open>Blank-page removal for scanned PDF documents (app.py)\<close>

text \<open>
  The script reads each uploaded PDF, asks a vision model for a file name, and copies the
  pages into a new document, leaving out the back pages that are blank. This theory
  embeds the two functions of the script and the loop of its main part:
  \<^item> \<^verbatim>\<open>is_blank_page(page, threshold=0.01)\<close> (lines 34 to 39),
  \<^item> \<^verbatim>\<open>get_smart_name(model, img)\<close> (lines 41 to 54) with the fallback of line 82,
  \<^item> the loop over \<^verbatim>\<open>range(len(doc))\<close> (lines 85 to 91), inside the steps the script
    takes for one uploaded file (lines 76 to 96).
  The libraries the script calls (PyMuPDF, Pillow, NumPy, the generative model) are not
  part of the repository. What they compute from a page is taken as a parameter; what
  their arithmetic does (binary64 division and comparison) is written out.
\<close>

subsection \<open>Exceptions\<close>

text \<open>
  An exception raised by a library call is a value: a computation that may raise
  returns \<open>exception + 'a\<close>, with \<open>Inl\<close> for the exception.
\<close>

datatype exception = IndexError | RenderError | GenerationError

subsection \<open>Binary64 arithmetic\<close>

text \<open>
  \<^verbatim>\<open>non_white_pixels / img_array.size\<close> divides a NumPy \<^verbatim>\<open>int64\<close> by a Python
  \<^verbatim>\<open>int\<close>: both operands are converted to binary64 and the quotient is rounded to
  binary64 (round to nearest, ties to even). A binary64 value is its exact rational
  value, an infinity or NaN; the sign of zero plays no role in a comparison.
\<close>

datatype float64 = Finite rat | PosInf | NegInf | NaN

definition pow2 :: "int \<Rightarrow> rat" where
  "pow2 k = (if 0 \<le> k then 2 ^ nat k else 1 / 2 ^ nat (- k))"

fun floor_log2 :: "nat \<Rightarrow> nat" where
  "floor_log2 n = (if n < 2 then 0 else Suc (floor_log2 (n div 2)))"

declare floor_log2.simps [simp del]

text \<open>For \<open>0 < q\<close>: the \<open>e\<close> with \<open>2 ^ e \<le> q < 2 ^ (e + 1)\<close>.\<close>

definition exponent_of :: "rat \<Rightarrow> int" where
  "exponent_of q =
     (let (a, b) = quotient_of q;
          d = int (floor_log2 (nat a)) - int (floor_log2 (nat b))
      in if pow2 d \<le> q then d else d - 1)"

definition round_half_even :: "rat \<Rightarrow> int" where
  "round_half_even x =
     (let f = \<lfloor>x\<rfloor>; d = x - of_int f
      in if d < 1 / 2 then f
         else if 1 / 2 < d then f + 1
         else if even f then f else f + 1)"

text \<open>
  Rounding a rational to binary64: 53 significant bits, the least exponent \<open>- 1022\<close>
  (below it the spacing stays \<open>2 ^ - 1074\<close>), overflow to an infinity.
\<close>

definition round_to_float64 :: "rat \<Rightarrow> float64" where
  "round_to_float64 q =
     (if q = 0 then Finite 0
      else let e = max (exponent_of \<bar>q\<bar>) (- 1022);
               ulp = pow2 (e - 52);
               v = of_int (round_half_even (\<bar>q\<bar> / ulp)) * ulp
           in if pow2 1024 \<le> v then (if 0 < q then PosInf else NegInf)
              else Finite (sgn q * v))"

fun float64_div :: "float64 \<Rightarrow> float64 \<Rightarrow> float64" where
  "float64_div NaN _ = NaN"
| "float64_div _ NaN = NaN"
| "float64_div (Finite x) (Finite y) =
     (if y = 0 then (if x = 0 then NaN else if 0 < x then PosInf else NegInf)
      else round_to_float64 (x / y))"
| "float64_div (Finite x) _ = Finite 0"
| "float64_div PosInf (Finite y) = (if y < 0 then NegInf else PosInf)"
| "float64_div NegInf (Finite y) = (if y < 0 then PosInf else NegInf)"
| "float64_div _ _ = NaN"

fun float64_less :: "float64 \<Rightarrow> float64 \<Rightarrow> bool" where
  "float64_less NaN _ = False"
| "float64_less _ NaN = False"
| "float64_less (Finite x) (Finite y) = (x < y)"
| "float64_less (Finite x) PosInf = True"
| "float64_less NegInf (Finite y) = True"
| "float64_less NegInf PosInf = True"
| "float64_less _ _ = False"

text \<open>\<^verbatim>\<open>a / b\<close> for a NumPy \<^verbatim>\<open>int64\<close> \<open>a\<close> and a Python \<^verbatim>\<open>int\<close> \<open>b\<close>, both counts.\<close>

definition np_true_divide :: "nat \<Rightarrow> nat \<Rightarrow> float64" where
  "np_true_divide a b =
     float64_div (round_to_float64 (of_nat a)) (round_to_float64 (of_nat b))"

subsection \<open>The blank detector\<close>

text \<open>
  \<^verbatim>\<open>fitz.Matrix(a, b)\<close> is the scaling by \<open>a\<close> and \<open>b\<close>. The imaging libraries are a
  record of two functions: \<open>get_pixmap\<close> renders a page under a matrix and may raise,
  \<open>convert_L\<close> is \<^verbatim>\<open>Image.open(io.BytesIO(pix.tobytes())).convert('L')\<close> read by
  \<^verbatim>\<open>np.array\<close>: the rows of 8-bit luminance samples.
\<close>

datatype matrix = Matrix nat nat

record ('page, 'pix) imaging =
  get_pixmap :: "'page \<Rightarrow> matrix \<Rightarrow> exception + 'pix"
  convert_L :: "'pix \<Rightarrow> 8 word list list"

text \<open>\<^verbatim>\<open>img_array < 250\<close>, \<^verbatim>\<open>np.sum\<close> of a Boolean array and \<^verbatim>\<open>img_array.size\<close>.\<close>

definition np_less :: "8 word list list \<Rightarrow> 8 word \<Rightarrow> bool list list" where
  "np_less img_array v = map (map (\<lambda>x. x < v)) img_array"

definition np_sum :: "bool list list \<Rightarrow> nat" where
  "np_sum a = sum_list (map (\<lambda>row. sum_list (map (\<lambda>b. if b then 1 else 0) row)) a)"

definition np_size :: "'a list list \<Rightarrow> nat" where
  "np_size a = sum_list (map length a)"

definition is_blank_page ::
  "('page, 'pix) imaging \<Rightarrow> 'page \<Rightarrow> float64 \<Rightarrow> exception + bool" where
  "is_blank_page lib page threshold =
     (case get_pixmap lib page (Matrix 2 2) of
        Inl e \<Rightarrow> Inl e
      | Inr pix \<Rightarrow>
          let img_array = convert_L lib pix;
              non_white_pixels = np_sum (np_less img_array 250)
          in Inr (float64_less (np_true_divide non_white_pixels (np_size img_array))
                    threshold))"

text \<open>The default \<^verbatim>\<open>threshold=0.01\<close>: the binary64 value nearest to \<open>1 / 100\<close>.\<close>

definition default_threshold :: float64 where
  "default_threshold = round_to_float64 (1 / 100)"

subsection \<open>The filter loop\<close>

text \<open>
  A document is the list of its pages. \<^verbatim>\<open>doc[i]\<close> raises outside the document.
  A page of the new document is a copy of a page of the source: it is the pair of the
  source page number and the page, so that a page of the output can be traced to the
  place it came from. \<^verbatim>\<open>new_doc.insert_pdf(doc, from_page=a, to_page=b)\<close> appends the
  copies of the pages \<open>a\<close> to \<open>b\<close> of \<open>doc\<close>.
\<close>

definition load_page :: "'page list \<Rightarrow> nat \<Rightarrow> exception + 'page" where
  "load_page doc i = (if i < length doc then Inr (doc ! i) else Inl IndexError)"

definition insert_pdf ::
  "(nat \<times> 'page) list \<Rightarrow> 'page list \<Rightarrow> nat \<Rightarrow> nat \<Rightarrow> (nat \<times> 'page) list" where
  "insert_pdf new_doc doc from_page to_page =
     new_doc @ map (\<lambda>k. (k, doc ! k)) (filter (\<lambda>k. k < length doc) [from_page..<Suc to_page])"

fun filter_loop ::
  "('page, 'pix) imaging \<Rightarrow> 'page list \<Rightarrow> nat list \<Rightarrow> (nat \<times> 'page) list
     \<Rightarrow> exception + (nat \<times> 'page) list" where
  "filter_loop lib doc [] new_doc = Inr new_doc"
| "filter_loop lib doc (i # rest) new_doc =
     (if i mod 2 = 0 then filter_loop lib doc rest (insert_pdf new_doc doc i i)
      else
        (case load_page doc i of
           Inl e \<Rightarrow> Inl e
         | Inr page \<Rightarrow>
             (case is_blank_page lib page default_threshold of
                Inl e \<Rightarrow> Inl e
              | Inr blank \<Rightarrow>
                  if \<not> blank then filter_loop lib doc rest (insert_pdf new_doc doc i i)
                  else filter_loop lib doc rest new_doc)))"

text \<open>Lines 85 to 91: the new document starts empty, \<open>i\<close> runs over \<^verbatim>\<open>range(len(doc))\<close>.\<close>

definition filter_blanks ::
  "('page, 'pix) imaging \<Rightarrow> 'page list \<Rightarrow> exception + (nat \<times> 'page) list" where
  "filter_blanks lib doc = filter_loop lib doc [0..<length doc] []"

text \<open>The source page numbers of an output document, and its pages.\<close>

definition source_numbers :: "(nat \<times> 'page) list \<Rightarrow> nat list" where
  "source_numbers new_doc = map fst new_doc"

definition pages_of :: "(nat \<times> 'page) list \<Rightarrow> 'page list" where
  "pages_of new_doc = map snd new_doc"

subsection \<open>The reference detector\<close>

text \<open>
  The detector as the specification words it, in exact arithmetic: render the page at
  twice the linear size, take the luminance samples on the scale from 0 to 255, count
  the samples below 250 as non-white, and call the page blank when the ratio of the
  non-white samples to all samples is strictly below the threshold. The ratio and the
  threshold are rational numbers and the comparison is the order of the rationals;
  nothing is rounded.
\<close>

definition non_white :: "8 word \<Rightarrow> bool" where
  "non_white v \<longleftrightarrow> unat v < 250"

definition is_blank_reference ::
  "('page, 'pix) imaging \<Rightarrow> 'page \<Rightarrow> rat \<Rightarrow> exception + bool" where
  "is_blank_reference lib page threshold =
     (case get_pixmap lib page (Matrix 2 2) of
        Inl e \<Rightarrow> Inl e
      | Inr pix \<Rightarrow>
          let samples = concat (convert_L lib pix);
              ratio = (of_nat (length (filter non_white samples)) :: rat)
                        / of_nat (length samples)
          in Inr (ratio < threshold))"



subsection \<open>The detector with the state of the process\<close>

text \<open>
  The same function with the state of the Python process passed along: the state
  holds the document and every object the libraries keep or create. A library call
  takes the state and returns its result with the new state; the statements of
  \<^verbatim>\<open>is_blank_page\<close> themselves bind local names only. \<open>rendered\<close> is the content a
  page renders to in a state: the luminance samples, or the exception.
\<close>

record ('page, 'pix, 'w) imaging_io =
  get_pixmap_io :: "'page \<Rightarrow> matrix \<Rightarrow> 'w \<Rightarrow> (exception + 'pix) \<times> 'w"
  convert_L_io :: "'pix \<Rightarrow> 'w \<Rightarrow> 8 word list list \<times> 'w"

definition is_blank_page_io ::
  "('page, 'pix, 'w) imaging_io \<Rightarrow> 'page \<Rightarrow> float64 \<Rightarrow> 'w \<Rightarrow> (exception + bool) \<times> 'w" where
  "is_blank_page_io lib page threshold w =
     (case get_pixmap_io lib page (Matrix 2 2) w of
        (Inl e, w1) \<Rightarrow> (Inl e, w1)
      | (Inr pix, w1) \<Rightarrow>
          (case convert_L_io lib pix w1 of
             (img_array, w2) \<Rightarrow>
               let non_white_pixels = np_sum (np_less img_array 250)
               in (Inr (float64_less
                          (np_true_divide non_white_pixels (np_size img_array)) threshold),
                   w2)))"


text \<open>A library without state, as the loop uses it.\<close>

definition stateless :: "('page, 'pix) imaging \<Rightarrow> ('page, 'pix, 'w) imaging_io" where
  "stateless lib =
     \<lparr>get_pixmap_io = (\<lambda>page m w. (get_pixmap lib page m, w)),
      convert_L_io = (\<lambda>pix w. (convert_L lib pix, w))\<rparr>"

subsection \<open>File names\<close>

text \<open>
  A Python \<^verbatim>\<open>str\<close> is the list of its code points. \<open>str\<close> reads an ASCII literal.
  \<^verbatim>\<open>str.strip()\<close> removes the white space at both ends, \<^verbatim>\<open>s.split(sep)\<close> cuts at a
  separator of one character, \<^verbatim>\<open>xs[i]\<close> raises outside the list,
  \<^verbatim>\<open>re.sub\<close> on a character class replaces every character of the class, and
  \<^verbatim>\<open>s.replace(old, new)\<close> replaces the occurrences of \<open>old\<close> from left to right.
\<close>

type_synonym pystr = "nat list"

definition str :: "string \<Rightarrow> pystr" where
  "str s = map of_char s"

definition isspace :: "nat \<Rightarrow> bool" where
  "isspace c \<longleftrightarrow>
     (9 \<le> c \<and> c \<le> 13) \<or> (28 \<le> c \<and> c \<le> 32) \<or> c = 133 \<or> c = 160 \<or> c = 5760 \<or>
     (8192 \<le> c \<and> c \<le> 8202) \<or> c = 8232 \<or> c = 8233 \<or> c = 8239 \<or> c = 8287 \<or>
     c = 12288"

definition str_strip :: "pystr \<Rightarrow> pystr" where
  "str_strip s = rev (dropWhile isspace (rev (dropWhile isspace s)))"

fun str_split :: "nat \<Rightarrow> pystr \<Rightarrow> pystr list" where
  "str_split sep [] = [[]]"
| "str_split sep (c # cs) =
     (if c = sep then [] # str_split sep cs
      else (case str_split sep cs of [] \<Rightarrow> [[c]] | w # ws \<Rightarrow> (c # w) # ws))"

definition item :: "'a list \<Rightarrow> nat \<Rightarrow> exception + 'a" where
  "item xs i = (if i < length xs then Inr (xs ! i) else Inl IndexError)"

definition re_sub :: "nat list \<Rightarrow> pystr \<Rightarrow> pystr \<Rightarrow> pystr" where
  "re_sub cls repl s = concat (map (\<lambda>c. if c \<in> set cls then repl else [c]) s)"

function str_replace :: "pystr \<Rightarrow> pystr \<Rightarrow> pystr \<Rightarrow> pystr" where
  "str_replace old new s =
     (if old = [] then new @ concat (map (\<lambda>c. c # new) s)
      else if s = [] then []
      else if take (length old) s = old then new @ str_replace old new (drop (length old) s)
      else hd s # str_replace old new (tl s))"
  by pat_completeness auto
termination
  by (relation "measure (\<lambda>(old, new, s). length s)") auto

declare str_replace.simps [simp del]

text \<open>
  The class \<^verbatim>\<open>[\\/:*?"<>|]\<close> of line 51: backslash, slash, colon, asterisk, question
  mark, double quote, less, greater and bar.
\<close>

definition illegal_chars :: "nat list" where
  "illegal_chars = [92, 47, 58, 42, 63, 34, 60, 62, 124]"

text \<open>
  The model is the function from the image to \<^verbatim>\<open>model.generate_content([prompt, img]).text\<close>,
  which may raise; the prompt is the fixed text of lines 42 to 48. Every exception of
  the \<^verbatim>\<open>try\<close> block gives \<^verbatim>\<open>None\<close> (the message shown by \<^verbatim>\<open>st.error\<close> is not modelled).
\<close>

definition get_smart_name :: "('img \<Rightarrow> exception + pystr) \<Rightarrow> 'img \<Rightarrow> pystr option" where
  "get_smart_name model img =
     (case model img of
        Inl e \<Rightarrow> None
      | Inr text \<Rightarrow>
          (case item (str_split 10 (str_strip text)) 0 of
             Inl e \<Rightarrow> None
           | Inr line \<Rightarrow> Some (re_sub illegal_chars [] line)))"

text \<open>
  Line 82: \<^verbatim>\<open>get_smart_name(model, img) or uploaded_file.name.replace(".pdf", "")\<close>.
  \<^verbatim>\<open>or\<close> takes its second operand when the first is \<^verbatim>\<open>None\<close> or the empty string.
\<close>

definition new_base_name :: "('img \<Rightarrow> exception + pystr) \<Rightarrow> 'img \<Rightarrow> pystr \<Rightarrow> pystr" where
  "new_base_name model img name =
     (case get_smart_name model img of
        None \<Rightarrow> str_replace (str ''.pdf'') [] name
      | Some s \<Rightarrow> if s = [] then str_replace (str ''.pdf'') [] name else s)"

subsection \<open>One uploaded file\<close>

text \<open>
  Lines 76 to 96 for one upload: the first page is rendered under \<^verbatim>\<open>fitz.Matrix(3, 3)\<close>
  and shown to the model (the image is the pixmap, read back from its PNG bytes), the
  base name is chosen, the pages are filtered, and the result is the pair of the file
  name and the new document.
\<close>

definition process_file ::
  "('page, 'pix) imaging \<Rightarrow> ('pix \<Rightarrow> exception + pystr) \<Rightarrow> pystr \<Rightarrow> 'page list
     \<Rightarrow> exception + (pystr \<times> (nat \<times> 'page) list)" where
  "process_file lib model name doc =
     (case load_page doc 0 of
        Inl e \<Rightarrow> Inl e
      | Inr page \<Rightarrow>
          (case get_pixmap lib page (Matrix 3 3) of
             Inl e \<Rightarrow> Inl e
           | Inr pix \<Rightarrow>
               let base = new_base_name model pix name
               in (case filter_blanks lib doc of
                     Inl e \<Rightarrow> Inl e
                   | Inr new_doc \<Rightarrow> Inr (base @ str ''.pdf'', new_doc))))"

subsection \<open>An example document\<close>

text \<open>
  For the examples a page is its own luminance grid at every magnification. The
  document has four pages: a dark front, a white back, a dark front, and a back of a
  hundred samples of which two are dark.
\<close>

definition example_imaging :: "(8 word list list, 8 word list list) imaging" where
  "example_imaging = \<lparr>get_pixmap = (\<lambda>page m. Inr page), convert_L = (\<lambda>pix. pix)\<rparr>"

definition example_doc :: "8 word list list list" where
  "example_doc = [[[0]], [[255]], [[0]], [replicate 2 0 @ replicate 98 255]]"

definition example_new_doc :: "(nat \<times> 8 word list list) list" where
  "example_new_doc = [(0, [[0]]), (2, [[0]]), (3, [replicate 2 0 @ replicate 98 255])]"


section \<open>Binary64 rounding\<close>

text \<open>
  Rounding never crosses a representable number: a bound of \<open>q\<close> that is a binary64
  number bounds the rounded \<open>q\<close> as well. With it, the comparison of the detector at
  the default threshold is the comparison of the exact ratio with \<open>1 / 100\<close>.
\<close>

lemma pow2_powi: "pow2 k = 2 powi k"
  by (simp add: pow2_def power_int_def inverse_eq_divide power_one_over)

lemma pow2_pos: "0 < pow2 k"
  by (simp add: pow2_powi)

lemma pow2_add: "pow2 (a + b) = pow2 a * pow2 b"
  by (simp add: pow2_powi power_int_add)

lemma pow2_mono: "a \<le> b \<Longrightarrow> pow2 a \<le> pow2 b"
  by (simp add: pow2_powi power_int_increasing)

lemma pow2_less_cancel: "pow2 a < pow2 b \<Longrightarrow> a < b"
  using pow2_mono [of b a] by (cases "a < b") auto

lemma pow2_nat: "pow2 (int n) = 2 ^ n"
  by (simp add: pow2_def)

lemma floor_log2_bounds: "0 < n \<Longrightarrow> 2 ^ floor_log2 n \<le> n \<and> n < 2 ^ Suc (floor_log2 n)"
proof (induction n rule: floor_log2.induct)
  case (1 n)
  show ?case
  proof (cases "n < 2")
    case True
    with 1(2) have "n = 1" by simp
    then show ?thesis by (simp add: floor_log2.simps)
  next
    case False
    then have "0 < n div 2" by simp
    with 1(1) False have ih: "2 ^ floor_log2 (n div 2) \<le> n div 2" "n div 2 < 2 ^ Suc (floor_log2 (n div 2))"
      by simp_all
    have eq: "floor_log2 n = Suc (floor_log2 (n div 2))"
      using False by (subst floor_log2.simps) simp
    from ih show ?thesis unfolding eq by simp linarith
  qed
qed


lemma exponent_of_bounds:
  assumes "0 < q"
  shows "pow2 (exponent_of q) \<le> q" and "q < pow2 (exponent_of q + 1)"
proof -
  obtain a b where ab: "quotient_of q = (a, b)" by (cases "quotient_of q")
  then have b: "0 < b" and q: "q = of_int a / of_int b"
    by (simp_all add: quotient_of_denom_pos quotient_of_div)
  with assms have a: "0 < a" by (simp add: zero_less_divide_iff)
  define la lb where "la = floor_log2 (nat a)" and "lb = floor_log2 (nat b)"
  define d where "d = int la - int lb"
  have "2 ^ la \<le> nat a" "nat a < 2 ^ Suc la" "2 ^ lb \<le> nat b" "nat b < 2 ^ Suc lb"
    using floor_log2_bounds [of "nat a"] floor_log2_bounds [of "nat b"] a b
    by (simp_all add: la_def lb_def)
  then have ia: "2 ^ la \<le> a" "a < 2 ^ Suc la" and ib: "2 ^ lb \<le> b" "b < 2 ^ Suc lb"
    using a b by (simp_all add: nat_le_iff nat_less_iff le_nat_iff)
  have ra: "(2::rat) ^ la \<le> of_int a" "(of_int a :: rat) < 2 ^ Suc la"
    using ia by (metis of_int_le_iff of_int_numeral of_int_power, metis of_int_less_iff of_int_numeral of_int_power)
  have rb: "(2::rat) ^ lb \<le> of_int b" "(of_int b :: rat) < 2 ^ Suc lb"
    using ib by (metis of_int_le_iff of_int_numeral of_int_power, metis of_int_less_iff of_int_numeral of_int_power)
  have bpos: "(0::rat) < of_int b" using b by simp
  have lo: "pow2 (d - 1) \<le> q"
  proof -
    have "pow2 (d - 1) * of_int b \<le> pow2 (d - 1) * 2 ^ Suc lb"
      using rb(2) pow2_pos [of "d - 1"] by (simp add: mult_left_mono)
    also have "\<dots> = pow2 (d - 1) * pow2 (int (Suc lb))" by (simp only: pow2_nat)
    also have "\<dots> = pow2 (d - 1 + int (Suc lb))" by (simp only: pow2_add)
    also have "\<dots> = pow2 (int la)" by (rule arg_cong [where f = pow2]) (simp add: d_def)
    also have "\<dots> \<le> of_int a" using ra(1) by (simp add: pow2_nat)
    finally show ?thesis using bpos by (simp add: q pos_le_divide_eq)
  qed
  have hi: "q < pow2 (d + 1)"
  proof -
    have "of_int a < pow2 (int (Suc la))" using ra(2) by (simp only: pow2_nat)
    also have "\<dots> = pow2 (d + 1 + int lb)" by (rule arg_cong [where f = pow2]) (simp add: d_def)
    also have "\<dots> = pow2 (d + 1) * pow2 (int lb)" by (simp only: pow2_add)
    also have "\<dots> \<le> pow2 (d + 1) * of_int b"
      using rb(1) pow2_pos [of "d + 1"] by (simp add: pow2_nat mult_left_mono)
    finally show ?thesis using bpos by (simp add: q pos_divide_less_eq)
  qed
  have e: "exponent_of q = (if pow2 d \<le> q then d else d - 1)"
    by (simp add: exponent_of_def ab d_def la_def lb_def Let_def)
  show "pow2 (exponent_of q) \<le> q" using lo by (simp add: e)
  show "q < pow2 (exponent_of q + 1)" using hi by (auto simp: e not_le)
qed

lemma exponent_of_eqI:
  assumes "pow2 k \<le> q" "q < pow2 (k + 1)"
  shows "exponent_of q = k"
proof -
  have q: "0 < q" using assms(1) pow2_pos [of k] by simp
  have "pow2 k < pow2 (exponent_of q + 1)"
    using assms(1) exponent_of_bounds(2) [OF q] by simp
  moreover have "pow2 (exponent_of q) < pow2 (k + 1)"
    using assms(2) exponent_of_bounds(1) [OF q] by simp
  ultimately show ?thesis
    using pow2_less_cancel [of k "exponent_of q + 1"] pow2_less_cancel [of "exponent_of q" "k + 1"]
    by simp
qed

lemma round_half_even_cases:
  "round_half_even x = \<lfloor>x\<rfloor> \<or> (round_half_even x = \<lfloor>x\<rfloor> + 1 \<and> of_int \<lfloor>x\<rfloor> < x)"
  by (auto simp: round_half_even_def Let_def)

lemma round_half_even_le:
  assumes "x \<le> of_int m"
  shows "round_half_even x \<le> m"
proof -
  have f: "\<lfloor>x\<rfloor> \<le> m" using assms by (simp add: floor_le_iff) 
  show ?thesis
    using round_half_even_cases [of x]
  proof
    assume "round_half_even x = \<lfloor>x\<rfloor>"
    with f show ?thesis by simp
  next
    assume h: "round_half_even x = \<lfloor>x\<rfloor> + 1 \<and> of_int \<lfloor>x\<rfloor> < x"
    then have "(of_int \<lfloor>x\<rfloor> :: rat) < of_int m" using assms by simp
    then have "\<lfloor>x\<rfloor> < m" by (simp only: of_int_less_iff)
    with h show ?thesis by simp
  qed
qed

lemma round_half_even_ge:
  assumes "of_int m \<le> x"
  shows "m \<le> round_half_even x"
proof -
  have "m \<le> \<lfloor>x\<rfloor>" using assms by (simp add: le_floor_iff)
  then show ?thesis using round_half_even_cases [of x] by auto
qed


lemma pow2_52_ulp: "pow2 e = 2 ^ 52 * pow2 (e - 52)"
proof -
  have "pow2 e = pow2 (52 + (e - 52))" by (rule arg_cong [where f = pow2]) simp
  also have "\<dots> = pow2 52 * pow2 (e - 52)" by (simp only: pow2_add)
  finally show ?thesis by (simp add: pow2_def)
qed

lemma pow2_53_ulp: "pow2 (e + 1) = 2 ^ 53 * pow2 (e - 52)"
proof -
  have "pow2 (e + 1) = pow2 (53 + (e - 52))" by (rule arg_cong [where f = pow2]) simp
  also have "\<dots> = pow2 53 * pow2 (e - 52)" by (simp only: pow2_add)
  finally show ?thesis by (simp add: pow2_def)
qed

lemma representable_bounds:
  assumes "2 ^ 52 \<le> m" "m < 2 ^ 53"
  shows "pow2 k \<le> of_int m * pow2 (k - 52)" and "of_int m * pow2 (k - 52) < pow2 (k + 1)"
proof -
  have m: "(2::rat) ^ 52 \<le> of_int m" "(of_int m :: rat) < 2 ^ 53"
    using assms by (metis of_int_le_iff of_int_numeral of_int_power, metis of_int_less_iff of_int_numeral of_int_power)
  show "pow2 k \<le> of_int m * pow2 (k - 52)"
    unfolding pow2_52_ulp [of k] using m(1) pow2_pos [of "k - 52"] by (simp add: mult_right_mono)
  show "of_int m * pow2 (k - 52) < pow2 (k + 1)"
    unfolding pow2_53_ulp [of k] using m(2) pow2_pos [of "k - 52"] by (simp add: mult_strict_right_mono)
qed

lemma round_to_float64_le:
  assumes q: "0 < q" and le: "q \<le> of_int m * pow2 (k - 52)"
    and m: "2 ^ 52 \<le> m" "m < 2 ^ 53" and k: "- 1022 \<le> k" "k < 1024"
  shows "\<exists>v. round_to_float64 q = Finite v \<and> v \<le> of_int m * pow2 (k - 52)"
proof -
  define e where "e = max (exponent_of q) (- 1022)"
  define ulp where "ulp = pow2 (e - 52)"
  define r where "r = round_half_even (q / ulp)"
  have ulp: "0 < ulp" by (simp add: ulp_def pow2_pos)
  have y: "of_int m * pow2 (k - 52) < pow2 (k + 1)" "pow2 k \<le> of_int m * pow2 (k - 52)"
    using representable_bounds [OF m] by simp_all
  have "pow2 (exponent_of q) < pow2 (k + 1)"
    using exponent_of_bounds(1) [OF q] le y(1) by simp
  then have "exponent_of q \<le> k" using pow2_less_cancel [of "exponent_of q" "k + 1"] by simp
  then have ek: "e \<le> k" using k by (simp add: e_def)
  have v: "of_int r * ulp \<le> of_int m * pow2 (k - 52)"
  proof (cases "e = k")
    case True
    then have "q / ulp \<le> of_int m" using le ulp by (simp add: ulp_def pos_divide_le_eq)
    then have "r \<le> m" unfolding r_def by (rule round_half_even_le)
    then have "(of_int r :: rat) \<le> of_int m" by simp
    then show ?thesis using ulp True by (simp add: ulp_def mult_right_mono)
  next
    case False
    with ek have lt: "e + 1 \<le> k" by simp
    have "q < pow2 (exponent_of q + 1)" by (rule exponent_of_bounds(2) [OF q])
    also have "\<dots> \<le> pow2 (e + 1)" by (rule pow2_mono) (simp add: e_def)
    also have "\<dots> = 2 ^ 53 * ulp" by (simp add: pow2_53_ulp ulp_def)
    finally have "q / ulp \<le> of_int (2 ^ 53)" using ulp by (simp add: pos_divide_le_eq)
    then have "r \<le> 2 ^ 53" unfolding r_def by (rule round_half_even_le)
    then have "(of_int r :: rat) \<le> of_int (2 ^ 53)" by (simp only: of_int_le_iff)
    then have "of_int r * ulp \<le> 2 ^ 53 * ulp" using ulp by (simp add: mult_right_mono)
    also have "\<dots> = pow2 (e + 1)" by (simp add: pow2_53_ulp ulp_def)
    also have "\<dots> \<le> pow2 k" using lt by (rule pow2_mono)
    also note y(2)
    finally show ?thesis .
  qed
  have "of_int r * ulp < pow2 (k + 1)" using v y(1) by simp
  also have "\<dots> \<le> pow2 1024" using k by (intro pow2_mono) simp
  finally have "\<not> pow2 1024 \<le> of_int r * ulp" by simp
  then have "round_to_float64 q = Finite (of_int r * ulp)"
    using q by (simp add: round_to_float64_def Let_def e_def [symmetric] ulp_def [symmetric] r_def [symmetric])
  with v show ?thesis by blast
qed

lemma round_to_float64_ge:
  assumes ge: "of_int m * pow2 (k - 52) \<le> q"
    and m: "2 ^ 52 \<le> m" "m < 2 ^ 53" and k: "- 1022 \<le> k"
  shows "round_to_float64 q = PosInf \<or>
         (\<exists>v. round_to_float64 q = Finite v \<and> of_int m * pow2 (k - 52) \<le> v)"
proof -
  define e where "e = max (exponent_of q) (- 1022)"
  define ulp where "ulp = pow2 (e - 52)"
  define r where "r = round_half_even (q / ulp)"
  have ulp: "0 < ulp" by (simp add: ulp_def pow2_pos)
  have y: "of_int m * pow2 (k - 52) < pow2 (k + 1)" "pow2 k \<le> of_int m * pow2 (k - 52)"
    using representable_bounds [OF m] by simp_all
  have q: "0 < q" using y(2) ge pow2_pos [of k] by simp
  have "pow2 k < pow2 (exponent_of q + 1)"
    using exponent_of_bounds(2) [OF q] ge y(2) by simp
  then have ke: "k \<le> exponent_of q" using pow2_less_cancel [of k "exponent_of q + 1"] by simp
  then have e: "e = exponent_of q" using k by (simp add: e_def)
  have v: "of_int m * pow2 (k - 52) \<le> of_int r * ulp"
  proof (cases "e = k")
    case True
    then have "of_int m \<le> q / ulp" using ge ulp by (simp add: ulp_def pos_le_divide_eq)
    then have "m \<le> r" unfolding r_def by (rule round_half_even_ge)
    then have "(of_int m :: rat) \<le> of_int r" by simp
    then show ?thesis using ulp True by (simp add: ulp_def mult_right_mono)
  next
    case False
    with ke e have lt: "k + 1 \<le> e" by simp
    have "2 ^ 52 * ulp = pow2 e" by (simp add: pow2_52_ulp [of e] ulp_def)
    also have "\<dots> \<le> q" unfolding e by (rule exponent_of_bounds(1) [OF q])
    finally have "of_int (2 ^ 52) \<le> q / ulp" using ulp by (simp add: pos_le_divide_eq)
    then have "2 ^ 52 \<le> r" unfolding r_def by (rule round_half_even_ge)
    then have r: "(of_int (2 ^ 52) :: rat) \<le> of_int r" by (simp only: of_int_le_iff)
    have "of_int m * pow2 (k - 52) \<le> pow2 (k + 1)" using y(1) by simp
    also have "\<dots> \<le> pow2 e" using lt by (rule pow2_mono)
    also have "\<dots> = 2 ^ 52 * ulp" by (simp add: pow2_52_ulp [of e] ulp_def)
    also have "\<dots> \<le> of_int r * ulp" using r ulp by (simp add: mult_right_mono)
    finally show ?thesis .
  qed
  have "round_to_float64 q = (if pow2 1024 \<le> of_int r * ulp then PosInf else Finite (of_int r * ulp))"
    using q by (simp add: round_to_float64_def Let_def e_def [symmetric] ulp_def [symmetric] r_def [symmetric])
  with v show ?thesis by auto
qed


lemma round_to_float64_of_nat:
  assumes "n < 2 ^ 53"
  shows "round_to_float64 (of_nat n) = Finite (of_nat n)"
proof (cases "n = 0")
  case True
  then show ?thesis by (simp add: round_to_float64_def)
next
  case False
  define l where "l = floor_log2 n"
  have n: "2 ^ l \<le> n" "n < 2 ^ Suc l"
    using floor_log2_bounds [of n] False by (simp_all add: l_def)
  have "(2::nat) ^ l < 2 ^ 53" using n(1) assms by simp
  then have "l < 53" by (rule power_less_imp_less_exp [rotated]) simp
  then have l: "l \<le> 52" by simp
  define m where "m = int n * 2 ^ (52 - l)"
  have "(2::nat) ^ 52 = 2 ^ l * 2 ^ (52 - l)" using l by (simp add: power_add [symmetric])
  also have "\<dots> \<le> n * 2 ^ (52 - l)" using n(1) by simp
  finally have "int (2 ^ 52) \<le> int (n * 2 ^ (52 - l))" by (simp only: of_nat_le_iff)
  then have m1: "2 ^ 52 \<le> m" by (simp add: m_def)
  have "n * 2 ^ (52 - l) < 2 ^ Suc l * 2 ^ (52 - l)" using n(2) by simp
  also have "\<dots> = (2::nat) ^ 53" using l by (simp add: power_add [symmetric])
  finally have "int (n * 2 ^ (52 - l)) < int (2 ^ 53)" by (simp only: of_nat_less_iff)
  then have m2: "m < 2 ^ 53" by (simp add: m_def)
  have "pow2 (int (52 - l)) * pow2 (int l - 52) = pow2 (int (52 - l) + (int l - 52))"
    by (simp only: pow2_add)
  also have "\<dots> = pow2 0" using l by (intro arg_cong [where f = pow2]) simp
  finally have one: "2 ^ (52 - l) * pow2 (int l - 52) = 1" by (simp add: pow2_nat pow2_def)
  have "of_int m * pow2 (int l - 52) = of_nat n * (2 ^ (52 - l) * pow2 (int l - 52))"
    by (simp add: m_def)
  then have y: "of_int m * pow2 (int l - 52) = of_nat n" by (simp only: one mult_1_right)
  have q: "(0::rat) < of_nat n" using False by simp
  have k: "- 1022 \<le> int l" "int l < 1024" using l by simp_all
  have "\<exists>v. round_to_float64 (of_nat n) = Finite v \<and> v \<le> of_nat n"
    using round_to_float64_le [OF q _ m1 m2 k] y by simp
  moreover have "round_to_float64 (of_nat n) = PosInf \<or>
      (\<exists>v. round_to_float64 (of_nat n) = Finite v \<and> of_nat n \<le> v)"
    using round_to_float64_ge [OF _ m1 m2 k(1), of "of_nat n"] y by simp
  ultimately show ?thesis by auto
qed

lemma floor_divide_numeral_rat:
  "\<lfloor>(numeral a :: rat) / numeral b\<rfloor> = numeral a div numeral b"
  using floor_divide_of_int_eq [of "numeral a" "numeral b", where ?'a = rat] by simp

lemma default_threshold_value:
  "default_threshold = Finite (of_int 5764607523034235 * pow2 (- 7 - 52))"
proof -
  have e: "exponent_of (1 / 100) = - 7"
    by (rule exponent_of_eqI) (simp_all add: pow2_def)
  have "\<bar>1 / 100 :: rat\<bar> = 1 / 100" by simp
  then show ?thesis
    unfolding default_threshold_def round_to_float64_def
    by (simp add: e Let_def pow2_def round_half_even_def floor_divide_numeral_rat)
qed


lemma np_true_divide_exact:
  assumes "0 < s" "s < 2 ^ 53" "c < 2 ^ 53"
  shows "np_true_divide c s = round_to_float64 (of_nat c / of_nat s)"
  using assms by (simp add: np_true_divide_def round_to_float64_of_nat)

lemma float64_less_default_threshold:
  assumes s: "0 < s" "s < 2 ^ 52" and c: "c \<le> s"
  shows "float64_less (np_true_divide c s) default_threshold \<longleftrightarrow> 100 * c < s"
proof -
  define q :: rat where "q = of_nat c / of_nat s"
  define T T' :: rat where "T = of_int 5764607523034235 * pow2 (- 7 - 52)"
    and "T' = of_int 5764607523034234 * pow2 (- 7 - 52)"
  have sr: "(0::rat) < of_nat s" using s(1) by simp
  have "s < 2 ^ 53" "c < 2 ^ 53" using s(2) c by simp_all
  then have d: "np_true_divide c s = round_to_float64 q"
    unfolding q_def using s(1) by (intro np_true_divide_exact)
  have TT: "T' < T" by (simp add: T_def T'_def pow2_pos)
  have thr: "default_threshold = Finite T" by (simp add: default_threshold_value T_def)
  consider "c = 0" | "0 < c" "100 * c < s" | "100 * c = s" | "s < 100 * c" by linarith
  then show ?thesis
  proof cases
    case 1
    then have "round_to_float64 q = Finite 0" by (simp add: q_def round_to_float64_def)
    moreover have "0 < T" by (simp add: T_def pow2_pos)
    ultimately have "float64_less (np_true_divide c s) default_threshold"
      by (simp only: d thr float64_less.simps)
    then show ?thesis using 1 s(1) by simp
  next
    case 2
    have "576460752303423488 * c \<le> 5764607523034234 * s" using 2(2) s(2) by simp
    then have "(of_nat (576460752303423488 * c) :: rat) \<le> of_nat (5764607523034234 * s)"
      by (simp only: of_nat_le_iff)
    then have "(576460752303423488::rat) * of_nat c \<le> 5764607523034234 * of_nat s" by simp
    then have "q \<le> T'" using sr by (simp add: q_def T'_def pow2_def field_simps)
    moreover have "0 < q" using 2(1) sr by (simp add: q_def)
    ultimately obtain v where "round_to_float64 q = Finite v" "v \<le> T'"
      using round_to_float64_le [of q 5764607523034234 "- 7"] by (auto simp: T'_def)
    then show ?thesis using TT 2(2) by (simp add: d thr)
  next
    case 3
    then have "of_nat s = (100::rat) * of_nat c" by (metis of_nat_mult of_nat_numeral)
    then have "q = 1 / 100" using sr by (simp add: q_def)
    then have "round_to_float64 q = default_threshold" by (simp only: default_threshold_def)
    then show ?thesis using 3 by (simp add: d thr)
  next
    case 4
    have "5764607523034235 * s \<le> 576460752303423488 * c" using 4 s(2) by simp
    then have "(of_nat (5764607523034235 * s) :: rat) \<le> of_nat (576460752303423488 * c)"
      by (simp only: of_nat_le_iff)
    then have "(5764607523034235::rat) * of_nat s \<le> 576460752303423488 * of_nat c" by simp
    then have "T \<le> q" using sr by (simp add: q_def T_def pow2_def field_simps)
    then have "round_to_float64 q = PosInf \<or> (\<exists>v. round_to_float64 q = Finite v \<and> T \<le> v)"
      using round_to_float64_ge [of 5764607523034235 "- 7" q] by (simp add: T_def)
    then show ?thesis using 4 by (auto simp: d thr)
  qed
qed

section \<open>The detector in terms of counts\<close>

text \<open>
  \<^verbatim>\<open>np.sum(img_array < 250)\<close> is the number of samples below 250 and \<^verbatim>\<open>img_array.size\<close>
  the number of samples. When the rendering raises, the detector raises; otherwise it
  compares the binary64 quotient of the two counts with the threshold.
\<close>

lemma sum_list_indicator:
  "sum_list (map ((\<lambda>b. if b then 1 else 0) \<circ> P) r) = length (filter P r)"
  by (induction r) simp_all

lemma np_sum_np_less: "np_sum (np_less a v) = length (filter (\<lambda>x. x < v) (concat a))"
  unfolding np_sum_def np_less_def by (induction a) (simp_all add: sum_list_indicator)

lemma np_size_concat: "np_size a = length (concat a)"
  unfolding np_size_def by (induction a) simp_all

lemma np_sum_le_size: "np_sum (np_less a v) \<le> np_size a"
  by (simp add: np_sum_np_less np_size_concat)

lemma non_white_less: "non_white v \<longleftrightarrow> v < 250"
  by (simp add: non_white_def word_less_nat_alt)

lemma is_blank_page_Inl:
  assumes "get_pixmap lib page (Matrix 2 2) = Inl e"
  shows "is_blank_page lib page threshold = Inl e"
  using assms by (simp add: is_blank_page_def)

lemma is_blank_page_Inr:
  assumes "get_pixmap lib page (Matrix 2 2) = Inr pix"
  shows "is_blank_page lib page threshold =
           Inr (float64_less
                  (np_true_divide (length (filter non_white (concat (convert_L lib pix))))
                     (length (concat (convert_L lib pix))))
                  threshold)"
proof -
  have "filter non_white (concat (convert_L lib pix)) =
          filter (\<lambda>x. x < 250) (concat (convert_L lib pix))"
    by (rule filter_cong) (simp_all add: non_white_less)
  with assms show ?thesis
    by (simp add: is_blank_page_def Let_def np_sum_np_less np_size_concat)
qed

lemma float64_less_irrefl: "\<not> float64_less x x"
  by (cases x) simp_all

text \<open>
  At the default threshold, and for fewer than \<open>2 ^ 52\<close> samples, the page is blank
  exactly when fewer than one sample in a hundred is below 250.
\<close>

lemma is_blank_page_default:
  assumes "get_pixmap lib page (Matrix 2 2) = Inr pix"
    and "0 < np_size (convert_L lib pix)" and "np_size (convert_L lib pix) < 2 ^ 52"
  shows "is_blank_page lib page default_threshold =
           Inr (100 * np_sum (np_less (convert_L lib pix) 250) < np_size (convert_L lib pix))"
  using assms float64_less_default_threshold [OF assms(2,3) np_sum_le_size [of "convert_L lib pix" 250]]
  by (simp add: is_blank_page_def Let_def)

text \<open>
  The detector against exact arithmetic. The rounded quotient is below a binary64
  threshold only if the exact ratio is; and an exact ratio that is at most a smaller
  binary64 number gives a rounded quotient below the threshold.
\<close>

lemma is_blank_reference_Inl:
  assumes "get_pixmap lib page (Matrix 2 2) = Inl e"
  shows "is_blank_reference lib page threshold = Inl e"
  using assms by (simp add: is_blank_reference_def)







section \<open>The result of the loop\<close>

text \<open>
  When the loop returns, the new document holds the copies of the pages with an even
  number and of the pages for which the detector returned false, in the order of the
  source. It returns whenever every page with an odd number can be rendered.
\<close>

lemma insert_pdf_single:
  "i < length doc \<Longrightarrow> insert_pdf new_doc doc i i = new_doc @ [(i, doc ! i)]"
  by (simp add: insert_pdf_def)

lemma filter_loop_Inr:
  assumes "filter_loop lib doc ns new_doc = Inr out" and "\<forall>i\<in>set ns. i < length doc"
  shows "out = new_doc @ map (\<lambda>i. (i, doc ! i))
           (filter (\<lambda>i. i mod 2 = 0 \<or> is_blank_page lib (doc ! i) default_threshold = Inr False) ns)"
  using assms
proof (induction ns arbitrary: new_doc)
  case Nil
  then show ?case by simp
next
  case (Cons i ns)
  from Cons.prems(2) have i: "i < length doc" and ns: "\<forall>i\<in>set ns. i < length doc" by simp_all
  show ?case
  proof (cases "i mod 2 = 0")
    case True
    with Cons.prems(1) have "filter_loop lib doc ns (new_doc @ [(i, doc ! i)]) = Inr out"
      by (simp add: insert_pdf_single [OF i])
    from Cons.IH [OF this ns] True show ?thesis by simp
  next
    case False
    with Cons.prems(1) i obtain blank where
      b: "is_blank_page lib (doc ! i) default_threshold = Inr blank"
      by (cases "is_blank_page lib (doc ! i) default_threshold") (simp_all add: load_page_def)
    show ?thesis
    proof (cases blank)
      case True
      with Cons.prems(1) False b i have "filter_loop lib doc ns new_doc = Inr out"
        by (simp add: load_page_def)
      from Cons.IH [OF this ns] False b True show ?thesis by simp
    next
      case nb: False
      with Cons.prems(1) False b i have "filter_loop lib doc ns (new_doc @ [(i, doc ! i)]) = Inr out"
        by (simp add: load_page_def insert_pdf_single)
      from Cons.IH [OF this ns] False b nb show ?thesis by simp
    qed
  qed
qed

lemma filter_loop_returns:
  assumes "\<forall>i\<in>set ns. i < length doc \<and>
             (i mod 2 \<noteq> 0 \<longrightarrow> (\<exists>pix. get_pixmap lib (doc ! i) (Matrix 2 2) = Inr pix))"
  shows "\<exists>out. filter_loop lib doc ns new_doc = Inr out"
  using assms
proof (induction ns arbitrary: new_doc)
  case Nil
  then show ?case by simp
next
  case (Cons i ns)
  then have ih: "\<And>acc. \<exists>out. filter_loop lib doc ns acc = Inr out" by simp
  show ?case
  proof (cases "i mod 2 = 0")
    case True
    then show ?thesis using ih by simp
  next
    case False
    with Cons.prems obtain pix where "get_pixmap lib (doc ! i) (Matrix 2 2) = Inr pix" by auto
    then obtain blank where "is_blank_page lib (doc ! i) default_threshold = Inr blank"
      by (simp add: is_blank_page_def Let_def)
    with False Cons.prems show ?thesis using ih by (simp add: load_page_def)
  qed
qed

lemma filter_blanks_Inr:
  assumes "filter_blanks lib doc = Inr new_doc"
  shows "new_doc = map (\<lambda>i. (i, doc ! i))
           (filter (\<lambda>i. i mod 2 = 0 \<or> is_blank_page lib (doc ! i) default_threshold = Inr False)
              [0..<length doc])"
  using filter_loop_Inr [of lib doc "[0..<length doc]" "[]" new_doc] assms
  by (simp add: filter_blanks_def)

lemma filter_blanks_returns:
  assumes "\<forall>i<length doc. i mod 2 \<noteq> 0 \<longrightarrow> (\<exists>pix. get_pixmap lib (doc ! i) (Matrix 2 2) = Inr pix)"
  shows "\<exists>new_doc. filter_blanks lib doc = Inr new_doc"
  unfolding filter_blanks_def using assms by (intro filter_loop_returns) simp

lemma source_numbers_filter_blanks:
  assumes "filter_blanks lib doc = Inr new_doc"
  shows "source_numbers new_doc =
           filter (\<lambda>i. i mod 2 = 0 \<or> is_blank_page lib (doc ! i) default_threshold = Inr False)
              [0..<length doc]"
  unfolding filter_blanks_Inr [OF assms] source_numbers_def by (simp add: comp_def)

lemma pages_of_source_numbers:
  assumes "filter_blanks lib doc = Inr new_doc"
  shows "pages_of new_doc = map (\<lambda>k. doc ! k) (source_numbers new_doc)"
proof -
  obtain ks where "new_doc = map (\<lambda>i. (i, doc ! i)) ks"
    using filter_blanks_Inr [OF assms] by blast
  then show ?thesis by (simp add: pages_of_def source_numbers_def comp_def)
qed

lemma mem_new_doc_iff:
  assumes "filter_blanks lib doc = Inr new_doc"
  shows "(i, p) \<in> set new_doc \<longleftrightarrow> i \<in> set (source_numbers new_doc) \<and> p = doc ! i"
proof -
  obtain ks where "new_doc = map (\<lambda>i. (i, doc ! i)) ks"
    using filter_blanks_Inr [OF assms] by blast
  then show ?thesis by (auto simp: source_numbers_def)
qed

lemma length_filter_even_upt: "length (filter (\<lambda>i. i mod 2 = 0) [0..<n]) = (n + 1) div 2"
  by (induction n) (auto simp: mod_Suc, presburger+)

lemma length_filter_mono:
  "(\<And>x. x \<in> set xs \<Longrightarrow> P x \<Longrightarrow> Q x) \<Longrightarrow> length (filter P xs) \<le> length (filter Q xs)"
  by (induction xs) auto

lemma is_blank_page_Inr_renders:
  assumes "is_blank_page lib page threshold = Inr blank"
  shows "\<exists>pix. get_pixmap lib page (Matrix 2 2) = Inr pix"
  using assms by (cases "get_pixmap lib page (Matrix 2 2)") (simp_all add: is_blank_page_def)

lemma filter_loop_Inr_renders:
  assumes "filter_loop lib doc ns new_doc = Inr out" and "\<forall>i\<in>set ns. i < length doc"
  shows "\<forall>i\<in>set ns. i mod 2 \<noteq> 0 \<longrightarrow> (\<exists>pix. get_pixmap lib (doc ! i) (Matrix 2 2) = Inr pix)"
  using assms
proof (induction ns arbitrary: new_doc)
  case Nil
  then show ?case by simp
next
  case (Cons i ns)
  from Cons.prems(2) have i: "i < length doc" and ns: "\<forall>i\<in>set ns. i < length doc" by simp_all
  show ?case
  proof (cases "i mod 2 = 0")
    case True
    with Cons.prems(1) have "filter_loop lib doc ns (insert_pdf new_doc doc i i) = Inr out"
      by simp
    from Cons.IH [OF this ns] True show ?thesis by simp
  next
    case False
    with Cons.prems(1) i obtain blank where
      b: "is_blank_page lib (doc ! i) default_threshold = Inr blank"
      by (cases "is_blank_page lib (doc ! i) default_threshold") (simp_all add: load_page_def)
    then have r: "\<exists>pix. get_pixmap lib (doc ! i) (Matrix 2 2) = Inr pix"
      by (rule is_blank_page_Inr_renders)
    from Cons.prems(1) False b i obtain acc where "filter_loop lib doc ns acc = Inr out"
      by (cases blank) (simp_all add: load_page_def)
    from Cons.IH [OF this ns] r show ?thesis by simp
  qed
qed

lemma filter_blanks_Inr_iff:
  "(\<exists>new_doc. filter_blanks lib doc = Inr new_doc) \<longleftrightarrow>
   (\<forall>i<length doc. i mod 2 \<noteq> 0 \<longrightarrow> (\<exists>pix. get_pixmap lib (doc ! i) (Matrix 2 2) = Inr pix))"
proof
  assume "\<exists>new_doc. filter_blanks lib doc = Inr new_doc"
  then obtain new_doc where "filter_loop lib doc [0..<length doc] [] = Inr new_doc"
    by (auto simp: filter_blanks_def)
  from filter_loop_Inr_renders [OF this]
  show "\<forall>i<length doc. i mod 2 \<noteq> 0 \<longrightarrow> (\<exists>pix. get_pixmap lib (doc ! i) (Matrix 2 2) = Inr pix)"
    by simp
next
  assume "\<forall>i<length doc. i mod 2 \<noteq> 0 \<longrightarrow> (\<exists>pix. get_pixmap lib (doc ! i) (Matrix 2 2) = Inr pix)"
  then show "\<exists>new_doc. filter_blanks lib doc = Inr new_doc"
    by (rule filter_blanks_returns)
qed

text \<open>
  The script reads the first page before the loop: an upload without pages raises there.
  An upload that is processed gets the chosen base name and the filtered pages.
\<close>

lemma process_file_empty: "process_file lib model name [] = Inl IndexError"
  by (simp add: process_file_def load_page_def)

lemma process_file_name:
  assumes "process_file lib model name doc = Inr (file_name, new_doc)"
  shows "filter_blanks lib doc = Inr new_doc \<and>
         (\<exists>pix. get_pixmap lib (doc ! 0) (Matrix 3 3) = Inr pix \<and>
                file_name = new_base_name model pix name @ str ''.pdf'')"
  using assms
  by (auto simp: process_file_def load_page_def Let_def split: if_splits sum.splits)

text \<open>
  The example document: the white back is left out, the back with two dark samples in
  a hundred is kept.
\<close>

lemma is_blank_page_example:
  assumes "0 < np_size page" "np_size page < 2 ^ 52"
  shows "is_blank_page example_imaging page default_threshold =
           Inr (100 * np_sum (np_less page 250) < np_size page)"
  using is_blank_page_default [of example_imaging page page] assms
  by (simp add: example_imaging_def)

lemma example_run: "filter_blanks example_imaging example_doc = Inr example_new_doc"
  by (simp add: filter_blanks_def example_doc_def example_new_doc_def upt_rec load_page_def
      insert_pdf_def is_blank_page_example np_size_def np_sum_def np_less_def
      sum_list_replicate)

section \<open>File names\<close>

text \<open>A name that \<open>get_smart_name\<close> returns has none of the characters of the class.\<close>

lemma get_smart_name_sanitized:
  assumes "get_smart_name model img = Some s"
  shows "set s \<inter> set illegal_chars = {}"
  using assms
  by (auto simp: get_smart_name_def re_sub_def split: sum.splits if_splits)

lemma new_base_name_sanitized:
  assumes "get_smart_name model img = Some s" and "s \<noteq> []"
  shows "new_base_name model img name = s \<and> set s \<inter> set illegal_chars = {}"
  using assms get_smart_name_sanitized [OF assms(1)] by (simp add: new_base_name_def)

section \<open>The detector and the state\<close>

text \<open>
  With a library without state the function with the state is the function the loop
  calls; in general its result is computed from the rendered content and the threshold.
\<close>

lemma is_blank_page_io_stateless:
  "is_blank_page_io (stateless lib) page threshold w = (is_blank_page lib page threshold, w)"
  by (cases "get_pixmap lib page (Matrix 2 2)")
     (simp_all add: is_blank_page_io_def is_blank_page_def stateless_def Let_def)


section \<open>Properties\<close>

text \<open>
  In the statements below \<open>filter_blanks lib doc = Inr new_doc\<close> says that the loop
  returned the document \<open>new_doc\<close>; page \<open>i\<close> of the source is present in it when \<open>i\<close>
  is among its source page numbers, that is when the copy \<open>(i, doc ! i)\<close> is one of
  its pages.
\<close>

text \<open>
  C1. For a page with an odd number \<open>i\<close> of the source: page \<open>i\<close> is present in the new
  document if and only if the detector, at the threshold 0.01, returned false for it.
\<close>

theorem back_pages_filtered:
  assumes "filter_blanks lib doc = Inr new_doc" and "i < length doc" and "i mod 2 \<noteq> 0"
  shows "(i \<in> set (source_numbers new_doc) \<longleftrightarrow>
            is_blank_page lib (doc ! i) default_threshold = Inr False) \<and>
         ((i, doc ! i) \<in> set new_doc \<longleftrightarrow>
            is_blank_page lib (doc ! i) default_threshold = Inr False)"
  using assms(2,3)
  by (simp add: mem_new_doc_iff [OF assms(1)] source_numbers_filter_blanks [OF assms(1)])

theorem back_pages_filtered_witness:
  "filter_blanks example_imaging example_doc = Inr example_new_doc \<and>
   3 < length example_doc \<and> (3::nat) mod 2 \<noteq> 0 \<and>
   3 \<in> set (source_numbers example_new_doc) \<and>
   (3, example_doc ! 3) \<in> set example_new_doc \<and>
   is_blank_page example_imaging (example_doc ! 3) default_threshold = Inr False \<and>
   1 < length example_doc \<and> (1::nat) mod 2 \<noteq> 0 \<and>
   1 \<notin> set (source_numbers example_new_doc) \<and>
   (1, example_doc ! 1) \<notin> set example_new_doc \<and>
   is_blank_page example_imaging (example_doc ! 1) default_threshold \<noteq> Inr False"
proof -
  have three: "3 < length example_doc" "(3::nat) mod 2 \<noteq> 0"
    and one: "1 < length example_doc" "(1::nat) mod 2 \<noteq> 0"
    by (simp_all add: example_doc_def)
  have mem: "3 \<in> set (source_numbers example_new_doc)" "1 \<notin> set (source_numbers example_new_doc)"
    by (simp_all add: example_new_doc_def source_numbers_def)
  show ?thesis
    using back_pages_filtered [OF example_run three] back_pages_filtered [OF example_run one]
      example_run three one mem
    by blast
qed

text \<open>
  C2. The pages of the new document are a subsequence of the pages of the source: the
  source page numbers are strictly increasing (so no page is moved or copied twice),
  each is a page number of the source, and each page is the page of the source at its
  number (so no page is new).
\<close>

theorem order_preserving_subsequence:
  assumes "filter_blanks lib doc = Inr new_doc"
  shows "sorted_wrt (<) (source_numbers new_doc) \<and>
         (\<forall>k\<in>set (source_numbers new_doc). k < length doc) \<and>
         pages_of new_doc = map (\<lambda>k. doc ! k) (source_numbers new_doc) \<and>
         subseq (pages_of new_doc) doc"
proof -
  let ?K = "\<lambda>i. i mod 2 = 0 \<or> is_blank_page lib (doc ! i) default_threshold = Inr False"
  have ks: "source_numbers new_doc = filter ?K [0..<length doc]"
    by (rule source_numbers_filter_blanks [OF assms])
  have pg: "pages_of new_doc = map (\<lambda>k. doc ! k) (source_numbers new_doc)"
    by (rule pages_of_source_numbers [OF assms])
  have "sorted_wrt (<) (source_numbers new_doc)"
    unfolding ks by (rule sorted_wrt_filter) simp
  moreover have "\<forall>k\<in>set (source_numbers new_doc). k < length doc"
    unfolding ks by simp
  moreover have "subseq (pages_of new_doc) doc"
  proof -
    have "subseq (map (\<lambda>k. doc ! k) (filter ?K [0..<length doc])) (map (\<lambda>k. doc ! k) [0..<length doc])"
      by (intro subseq_map subseq_filter_left)
    then show ?thesis by (simp add: pg ks map_nth)
  qed
  ultimately show ?thesis using pg by simp
qed

theorem order_preserving_subsequence_witness:
  "filter_blanks example_imaging example_doc = Inr example_new_doc \<and>
   source_numbers example_new_doc = [0, 2, 3] \<and>
   sorted_wrt (<) (source_numbers example_new_doc) \<and>
   set (source_numbers example_new_doc) \<subseteq> {..<length example_doc} \<and>
   pages_of example_new_doc = map (\<lambda>k. example_doc ! k) (source_numbers example_new_doc) \<and>
   subseq (pages_of example_new_doc) example_doc"
proof -
  have "source_numbers example_new_doc = [0, 2, 3]"
    by (simp add: example_new_doc_def source_numbers_def)
  then show ?thesis
    using order_preserving_subsequence [OF example_run] example_run by blast
qed

text \<open>
  C3. Every page with an even number of the source is present in the new document,
  whatever the detector would say about it.
\<close>

theorem front_pages_retained:
  assumes "filter_blanks lib doc = Inr new_doc" and "i < length doc" and "i mod 2 = 0"
  shows "i \<in> set (source_numbers new_doc) \<and> (i, doc ! i) \<in> set new_doc"
  using assms(2,3)
  by (simp add: mem_new_doc_iff [OF assms(1)] source_numbers_filter_blanks [OF assms(1)])

theorem front_pages_retained_witness:
  "filter_blanks example_imaging example_doc = Inr example_new_doc \<and>
   2 < length example_doc \<and> (2::nat) mod 2 = 0 \<and>
   2 \<in> set (source_numbers example_new_doc) \<and>
   (2, example_doc ! 2) \<in> set example_new_doc"
proof -
  have two: "2 < length example_doc" "(2::nat) mod 2 = 0"
    by (simp_all add: example_doc_def)
  show ?thesis
    using front_pages_retained [OF example_run two] example_run two by blast
qed




text \<open>
  C5. A page whose ratio of non-white samples to all samples equals the threshold is
  not blank, the comparison being strict. This holds when the computed binary64 ratio
  equals the threshold, and when the exact ratio of the counts is a number \<open>r\<close> and the
  threshold is the binary64 number written \<open>r\<close> (as \<open>1 / 100\<close> and \<^verbatim>\<open>0.01\<close>).
\<close>

theorem threshold_boundary:
  assumes "get_pixmap lib page (Matrix 2 2) = Inr pix"
    and "c = length (filter non_white (concat (convert_L lib pix)))"
    and "s = length (concat (convert_L lib pix))"
    and "np_true_divide c s = threshold \<or>
         (0 < s \<and> s < 2 ^ 53 \<and> of_nat c / of_nat s = r \<and> threshold = round_to_float64 r)"
  shows "is_blank_page lib page threshold = Inr False"
proof -
  have cs: "c \<le> s" unfolding assms(2,3) by (rule length_filter_le)
  have "np_true_divide c s = threshold"
    using assms(4)
  proof
    assume "np_true_divide c s = threshold"
    then show ?thesis .
  next
    assume h: "0 < s \<and> s < 2 ^ 53 \<and> of_nat c / of_nat s = r \<and> threshold = round_to_float64 r"
    then have "c < 2 ^ 53" using cs by simp
    with h show ?thesis by (simp add: np_true_divide_exact)
  qed
  moreover have "is_blank_page lib page threshold = Inr (float64_less (np_true_divide c s) threshold)"
    unfolding assms(2,3) by (rule is_blank_page_Inr [OF assms(1)])
  ultimately show ?thesis by (simp add: float64_less_irrefl)
qed

theorem threshold_boundary_witness:
  "get_pixmap example_imaging [0 # replicate 99 255] (Matrix 2 2) = Inr [0 # replicate 99 255] \<and>
   length (filter non_white (concat (convert_L example_imaging [0 # replicate 99 255]))) = 1 \<and>
   length (concat (convert_L example_imaging [0 # replicate 99 255])) = 100 \<and>
   (of_nat 1 :: rat) / of_nat 100 = 1 / 100 \<and>
   default_threshold = round_to_float64 (1 / 100) \<and>
   is_blank_page example_imaging [0 # replicate 99 255] default_threshold = Inr False"
proof -
  have g: "get_pixmap example_imaging [0 # replicate 99 255] (Matrix 2 2) = Inr [0 # replicate 99 255]"
    by (simp add: example_imaging_def)
  have c: "1 = length (filter non_white (concat (convert_L example_imaging [0 # replicate 99 255])))"
    by (simp add: example_imaging_def non_white_def)
  have s: "100 = length (concat (convert_L example_imaging [0 # replicate 99 255]))"
    by (simp add: example_imaging_def)
  have r: "np_true_divide 1 100 = default_threshold \<or>
      (0 < (100::nat) \<and> (100::nat) < 2 ^ 53 \<and> (of_nat 1 :: rat) / of_nat 100 = 1 / 100 \<and>
       default_threshold = round_to_float64 (1 / 100))"
    by (simp add: default_threshold_def)
  show ?thesis
    using threshold_boundary [OF g c s r] g c [symmetric] s [symmetric]
    by (simp add: default_threshold_def)
qed

text \<open>
  C6. For the document without pages the loop returns a document without pages, and it
  raises nothing.
\<close>

theorem filter_blanks_empty: "filter_blanks lib [] = Inr []"
  by (simp add: filter_blanks_def)

text \<open>
  C7. A document all of whose page numbers are even, that is a document of at most one
  page, is returned as it is: the loop returns, and the pages of the new document are
  the pages of the source in their order.
\<close>

theorem fronts_only_identity:
  assumes "length doc \<le> 1 \<or> (\<forall>i<length doc. i mod 2 = 0)"
  shows "filter_blanks lib doc = Inr (zip [0..<length doc] doc) \<and>
         pages_of (zip [0..<length doc] doc) = doc"
proof -
  have "length doc \<le> 1"
  proof (rule ccontr)
    assume "\<not> length doc \<le> 1"
    then have "1 < length doc" by simp
    with assms show False by auto
  qed
  then consider "doc = []" | p where "doc = [p]"
    by (cases doc) (auto simp: le_Suc_eq)
  then show ?thesis
  proof cases
    case 1
    then show ?thesis by (simp add: filter_blanks_def pages_of_def)
  next
    case 2
    then show ?thesis by (simp add: filter_blanks_def pages_of_def insert_pdf_def)
  qed
qed

theorem fronts_only_identity_witness:
  "length [[[7 :: 8 word]]] \<le> 1 \<and>
   filter_blanks example_imaging [[[7]]] = Inr [(0, [[7]])] \<and>
   pages_of [(0 :: nat, [[7 :: 8 word]])] = [[[7]]]"
  using fronts_only_identity [of "[[[7]]]" example_imaging] by simp



text \<open>
  C9. When the naming call fails, the base name is the name of the upload with every
  occurrence of \<^verbatim>\<open>.pdf\<close> removed, not only the extension: for the upload
  \<^verbatim>\<open>a.pdf.pdf\<close> it is \<^verbatim>\<open>a\<close>, where the name without its extension is \<^verbatim>\<open>a.pdf\<close>.
\<close>

theorem new_base_name_inner_pdf:
  "new_base_name (\<lambda>img. Inl GenerationError) img (str ''a.pdf.pdf'') = str ''a''"
proof -
  have "str_replace (str ''.pdf'') [] (str ''a.pdf.pdf'') = str ''a''"
    by code_simp
  then show ?thesis by (simp add: new_base_name_def get_smart_name_def)
qed

text \<open>
  C10. A source of \<open>n\<close> pages gives a new document of at least \<open>(n + 1) div 2\<close> pages,
  the number of its even page numbers, and of at most \<open>n\<close> pages.
\<close>

theorem output_page_count:
  assumes "filter_blanks lib doc = Inr new_doc"
  shows "(length doc + 1) div 2 \<le> length new_doc \<and> length new_doc \<le> length doc"
proof -
  let ?K = "\<lambda>i. i mod 2 = 0 \<or> is_blank_page lib (doc ! i) default_threshold = Inr False"
  have len: "length new_doc = length (filter ?K [0..<length doc])"
    by (subst filter_blanks_Inr [OF assms]) simp
  have "length (filter (\<lambda>i. i mod 2 = 0) [0..<length doc]) \<le> length (filter ?K [0..<length doc])"
    by (rule length_filter_mono) simp
  then have "(length doc + 1) div 2 \<le> length new_doc"
    by (simp only: len length_filter_even_upt)
  moreover have "length new_doc \<le> length doc"
    unfolding len using length_filter_le [of ?K "[0..<length doc]"] by simp
  ultimately show ?thesis by simp
qed

theorem output_page_count_witness:
  "filter_blanks example_imaging example_doc = Inr example_new_doc \<and>
   length example_doc = 4 \<and> length example_new_doc = 3 \<and>
   (length example_doc + 1) div 2 \<le> length example_new_doc \<and>
   length example_new_doc \<le> length example_doc"
proof -
  have "length example_doc = 4" "length example_new_doc = 3"
    by (simp_all add: example_doc_def example_new_doc_def)
  then show ?thesis
    using output_page_count [OF example_run] example_run by blast
qed

end
